theory Spec2Isabelle
  imports Main "HOL-Library.Multiset"
begin

section \<open>Values of the request body and of the stored document\<close>

text \<open>
  The server (\<^verbatim>\<open>src/server.js\<close>) reads its inputs from JSON bodies and stores them in a
  JSON document, so a field such as \<^verbatim>\<open>parentId\<close> holds whatever scalar the client sent.
  \<open>JUndef\<close> is an absent field. Numbers are modelled as integers (ids, counters and
  millisecond timestamps are integers in the safe range of a double); arrays and objects
  as field values are outside the model.
\<close>

datatype jsval = JUndef | JNull | JBool bool | JNum int | JStr string

text \<open>JavaScript truthiness, as used by \<^verbatim>\<open>!content\<close> and \<^verbatim>\<open>parentId || null\<close>.\<close>

fun truthy :: "jsval \<Rightarrow> bool" where
  "truthy JUndef = False"
| "truthy JNull = False"
| "truthy (JBool b) = b"
| "truthy (JNum n) = (n \<noteq> 0)"
| "truthy (JStr s) = (s \<noteq> [])"

text \<open>The loose comparison \<^verbatim>\<open>v == null\<close>: true of \<^verbatim>\<open>null\<close> and \<^verbatim>\<open>undefined\<close> only.\<close>

fun nullish :: "jsval \<Rightarrow> bool" where
  "nullish JUndef = True"
| "nullish JNull = True"
| "nullish v = False"

subsection \<open>Property keys\<close>

text \<open>
  \<^verbatim>\<open>map[c.id]\<close> and \<^verbatim>\<open>map[c.parentId]\<close> convert the value to a property key, a string:
  a number prints in decimal, a string is itself.
\<close>

definition digit :: "nat \<Rightarrow> char" where
  "digit d = char_of (48 + d)"

function natToString :: "nat \<Rightarrow> string" where
  "natToString n = (if n < 10 then [digit n] else natToString (n div 10) @ [digit (n mod 10)])"
  by pat_completeness auto
termination
  by (relation "measure (\<lambda>n. n)") auto

declare natToString.simps [simp del]

definition numToString :: "int \<Rightarrow> string" where
  "numToString i = (if i < 0 then CHR ''-'' # natToString (nat (- i)) else natToString (nat i))"

fun propKey :: "jsval \<Rightarrow> string" where
  "propKey JUndef = ''undefined''"
| "propKey JNull = ''null''"
| "propKey (JBool b) = (if b then ''true'' else ''false'')"
| "propKey (JNum n) = numToString n"
| "propKey (JStr s) = s"

text \<open>
  \<^verbatim>\<open>const map = {}\<close> is an ordinary object: a key it does not own is looked up on
  \<^verbatim>\<open>Object.prototype\<close>. These are the members of \<^verbatim>\<open>Object.prototype\<close> (ECMAScript, with
  the legacy accessors of Annex B that Node.js provides); each is a function or an object,
  hence truthy, and none has a \<^verbatim>\<open>replies\<close> property.
\<close>

definition objectPrototypeKeys :: "string list" where
  "objectPrototypeKeys =
     [''constructor'', ''__defineGetter__'', ''__defineSetter__'', ''hasOwnProperty'',
      ''__lookupGetter__'', ''__lookupSetter__'', ''isPrototypeOf'', ''propertyIsEnumerable'',
      ''toString'', ''valueOf'', ''__proto__'', ''toLocaleString'']"

subsection \<open>Trimming\<close>

text \<open>\<^verbatim>\<open>content.trim()\<close> on the ASCII white space characters.\<close>

definition isSpace :: "char \<Rightarrow> bool" where
  "isSpace c = (c \<in> set [CHR '' '', CHR 0x09, CHR 0x0A, CHR 0x0B, CHR 0x0C, CHR 0x0D])"

definition trim :: "string \<Rightarrow> string" where
  "trim s = rev (dropWhile isSpace (rev (dropWhile isSpace s)))"

section \<open>The data model\<close>

datatype kind = Like | Love | Haha | Wow | Sad | Angry

text \<open>
  \<^verbatim>\<open>reactions\<close> is an object with exactly the six keys, each holding an array of user ids.
  \<open>createdAt\<close> is the millisecond timestamp that the stored ISO string denotes
  (\<^verbatim>\<open>new Date(c.createdAt)\<close> in the comparator reads it back).
\<close>

type_synonym reactions = "kind \<Rightarrow> int list"

record comment =
  cid :: int
  userId :: int
  userName :: string
  avatar :: string
  content :: string
  createdAt :: int
  updatedAt :: "int option"
  parentId :: jsval
  reactions :: reactions

record user =
  uid :: int
  uname :: string
  email :: string
  passwordHash :: string
  uavatar :: string

record db =
  users :: "user list"
  comments :: "comment list"
  nextCommentId :: int
  nextUserId :: int

section \<open>buildCommentsTree\<close>

text \<open>
  The function builds objects that refer to each other: \<^verbatim>\<open>map[c.id]\<close> is pushed onto
  \<^verbatim>\<open>roots\<close> or onto a parent's \<^verbatim>\<open>replies\<close> by reference, and a node's \<^verbatim>\<open>replies\<close> array
  keeps growing after the node itself has been pushed. The model keeps the object
  \<^verbatim>\<open>map\<close> as the store and uses a node's key as its reference.
\<close>

record node =
  ncomment :: comment
  replies :: "string list"

type_synonym store = "string \<Rightarrow> node option"

type_synonym tree = "string list \<times> store"

datatype error =
    ValidationError | AuthError | ForbiddenError | NotFoundError
  | TypeError | StackOverflow

definition keyOf :: "comment \<Rightarrow> string" where
  "keyOf c = propKey (JNum (cid c))"

text \<open>First pass: \<^verbatim>\<open>comments.forEach(c => { map[c.id] = { ...c, replies: [] }; })\<close>.\<close>

definition fillMap :: "comment list \<Rightarrow> store" where
  "fillMap cs = fold (\<lambda>c m. m(keyOf c \<mapsto> \<lparr>ncomment = c, replies = []\<rparr>)) cs Map.empty"

text \<open>
  The body of the second \<^verbatim>\<open>forEach\<close>. When \<^verbatim>\<open>map[c.parentId]\<close> is not an own entry but a
  member of \<^verbatim>\<open>Object.prototype\<close>, the test \<^verbatim>\<open>if (map[c.parentId])\<close> succeeds and
  \<^verbatim>\<open>.replies.push\<close> is called on \<^verbatim>\<open>undefined\<close>: a TypeError.
\<close>

definition attach :: "comment \<Rightarrow> tree \<Rightarrow> error + tree" where
  "attach c t =
     (case t of (roots, m) \<Rightarrow>
        if nullish (parentId c) then Inr (roots @ [keyOf c], m)
        else (case m (propKey (parentId c)) of
                Some p \<Rightarrow>
                  Inr (roots, m(propKey (parentId c) \<mapsto> p\<lparr>replies := replies p @ [keyOf c]\<rparr>))
              | None \<Rightarrow>
                  if propKey (parentId c) \<in> set objectPrototypeKeys then Inl TypeError
                  else Inr (roots, m)))"

fun attachAll :: "comment list \<Rightarrow> tree \<Rightarrow> error + tree" where
  "attachAll [] t = Inr t"
| "attachAll (c # cs) t = (case attach c t of Inl e \<Rightarrow> Inl e | Inr t' \<Rightarrow> attachAll cs t')"

definition createdAtOf :: "store \<Rightarrow> string \<Rightarrow> int" where
  "createdAtOf m k = (case m k of Some n \<Rightarrow> createdAt (ncomment n) | None \<Rightarrow> 0)"

text \<open>
  \<^verbatim>\<open>roots.sort((a,b) => new Date(b.createdAt) - new Date(a.createdAt))\<close>: the comparator
  orders by \<open>createdAt\<close> descending and \<^verbatim>\<open>Array.prototype.sort\<close> is stable, which is what
  \<open>sort_key\<close> on the negated timestamp computes.
\<close>

definition buildCommentsTree :: "comment list \<Rightarrow> error + tree" where
  "buildCommentsTree cs =
     (case attachAll cs ([], fillMap cs) of
        Inl e \<Rightarrow> Inl e
      | Inr (roots, m) \<Rightarrow> Inr (sort_key (\<lambda>k. - createdAtOf m k) roots, m))"

section \<open>The route handlers\<close>

text \<open>
  A handler loads the document, and its effects are the documents it writes with
  \<^verbatim>\<open>saveDB\<close>, the \<^verbatim>\<open>comments:update\<close> payloads it passes to \<^verbatim>\<open>io.emit\<close>, and its response.
  The identity \<^verbatim>\<open>req.user.id\<close> is supplied by the authentication middleware.
\<close>

datatype reply =
    Created comment | Edited comment | Deleted | Reacted reactions

record outcome =
  saved :: "db list"
  emitted :: "tree list"
  response :: "error + reply"

definition failWith :: "error \<Rightarrow> outcome" where
  "failWith e = \<lparr>saved = [], emitted = [], response = Inl e\<rparr>"

text \<open>
  The common tail of the four mutations:
  \<^verbatim>\<open>await saveDB(db); io.emit('comments:update', { comments: buildCommentsTree(db.comments) }); res.json(...)\<close>.
  An exception in \<^verbatim>\<open>buildCommentsTree\<close> is raised after the document has been written.
  Reading and writing the file are taken to succeed.
\<close>

definition saveEmitRespond :: "db \<Rightarrow> reply \<Rightarrow> outcome" where
  "saveEmitRespond d r =
     (case buildCommentsTree (comments d) of
        Inl e \<Rightarrow> \<lparr>saved = [d], emitted = [], response = Inl e\<rparr>
      | Inr t \<Rightarrow> \<lparr>saved = [d], emitted = [t], response = Inr r\<rparr>)"

text \<open>
  \<^verbatim>\<open>if (!content || !content.trim()) return res.status(400)...\<close>; a truthy value that is
  not a string has no \<^verbatim>\<open>trim\<close> method.
\<close>

definition checkContent :: "jsval \<Rightarrow> error + string" where
  "checkContent v =
     (if \<not> truthy v then Inl ValidationError
      else (case v of
              JStr s \<Rightarrow> if trim s = [] then Inl ValidationError else Inr (trim s)
            | _ \<Rightarrow> Inl TypeError))"

definition emptyReactions :: reactions where
  "emptyReactions = (\<lambda>k. [])"

text \<open>\<^verbatim>\<open>const { content, parentId = null } = req.body\<close> and \<^verbatim>\<open>parentId || null\<close>.\<close>

definition storedParentId :: "jsval \<Rightarrow> jsval" where
  "storedParentId p =
     (let p' = (if p = JUndef then JNull else p) in if truthy p' then p' else JNull)"

definition createComment :: "int \<Rightarrow> jsval \<Rightarrow> jsval \<Rightarrow> int \<Rightarrow> db \<Rightarrow> outcome" where
  "createComment reqUser body_content body_parentId now d =
     (case checkContent body_content of
        Inl e \<Rightarrow> failWith e
      | Inr trimmed \<Rightarrow>
          (case find (\<lambda>u. uid u = reqUser) (users d) of
             None \<Rightarrow> failWith AuthError
           | Some u \<Rightarrow>
               let newComment =
                     \<lparr>cid = nextCommentId d, userId = uid u, userName = uname u,
                      avatar = uavatar u, content = trimmed, createdAt = now,
                      updatedAt = None, parentId = storedParentId body_parentId,
                      reactions = emptyReactions\<rparr>;
                   d' = d\<lparr>comments := comments d @ [newComment],
                          nextCommentId := nextCommentId d + 1\<rparr>
               in saveEmitRespond d' (Created newComment)))"

text \<open>
  \<^verbatim>\<open>db.comments.find(c => c.id === commentId)\<close> returns the first match, and the handlers
  then assign to that object's fields: the list changes at the first match only.
  \<open>None\<close> as the requested id is the \<^verbatim>\<open>NaN\<close> of a failed \<^verbatim>\<open>parseInt\<close>, equal to no id.
\<close>

fun updateFirst :: "('a \<Rightarrow> bool) \<Rightarrow> ('a \<Rightarrow> 'a) \<Rightarrow> 'a list \<Rightarrow> 'a list" where
  "updateFirst P f [] = []"
| "updateFirst P f (x # xs) = (if P x then f x # xs else x # updateFirst P f xs)"

definition hasId :: "int option \<Rightarrow> comment \<Rightarrow> bool" where
  "hasId i c = (i = Some (cid c))"

definition editComment :: "int \<Rightarrow> int option \<Rightarrow> jsval \<Rightarrow> int \<Rightarrow> db \<Rightarrow> outcome" where
  "editComment reqUser commentId body_content now d =
     (case checkContent body_content of
        Inl e \<Rightarrow> failWith e
      | Inr trimmed \<Rightarrow>
          (case find (hasId commentId) (comments d) of
             None \<Rightarrow> failWith NotFoundError
           | Some c \<Rightarrow>
               if userId c \<noteq> reqUser then failWith ForbiddenError
               else
                 let c' = c\<lparr>content := trimmed, updatedAt := Some now\<rparr>;
                     d' = d\<lparr>comments := updateFirst (hasId commentId) (\<lambda>_. c') (comments d)\<rparr>
                 in saveEmitRespond d' (Edited c')))"

text \<open>
  \<^verbatim>\<open>markDescendants\<close> calls itself for every comment whose \<^verbatim>\<open>parentId\<close> is strictly equal
  to the id at hand, with no test of \<^verbatim>\<open>toRemove\<close>. The first argument is the depth of call
  stack still available; at depth 0 the engine raises its stack overflow RangeError,
  which is the result \<open>None\<close>. The handler starts it at \<^verbatim>\<open>commentId\<close>, the id of the comment
  it has just found.
\<close>

fun markDescendants :: "nat \<Rightarrow> comment list \<Rightarrow> int \<Rightarrow> int set \<Rightarrow> int set option" where
  "markDescendants 0 cs i toRemove = None"
| "markDescendants (Suc n) cs i toRemove =
     fold (\<lambda>child r. case r of None \<Rightarrow> None
                     | Some s \<Rightarrow> markDescendants n cs (cid child) s)
          (filter (\<lambda>c. parentId c = JNum i) cs)
          (Some (insert i toRemove))"

definition deleteComment :: "nat \<Rightarrow> int \<Rightarrow> int option \<Rightarrow> db \<Rightarrow> outcome" where
  "deleteComment stack reqUser commentId d =
     (case find (hasId commentId) (comments d) of
        None \<Rightarrow> failWith NotFoundError
      | Some c \<Rightarrow>
          if userId c \<noteq> reqUser then failWith ForbiddenError
          else (case markDescendants stack (comments d) (cid c) {} of
                  None \<Rightarrow> failWith StackOverflow
                | Some toRemove \<Rightarrow>
                    saveEmitRespond
                      (d\<lparr>comments := filter (\<lambda>c. cid c \<notin> toRemove) (comments d)\<rparr>)
                      Deleted))"

text \<open>
  \<^verbatim>\<open>valid.includes(reaction)\<close> compares with the six strings, so only a string passes.
\<close>

fun kindOf :: "jsval \<Rightarrow> kind option" where
  "kindOf (JStr s) =
     (if s = ''like'' then Some Like else if s = ''love'' then Some Love
      else if s = ''haha'' then Some Haha else if s = ''wow'' then Some Wow
      else if s = ''sad'' then Some Sad else if s = ''angry'' then Some Angry
      else None)"
| "kindOf v = None"

text \<open>
  \<^verbatim>\<open>const idx = arr.indexOf(userId); if (idx === -1) arr.push(userId); else arr.splice(idx, 1);\<close>
\<close>

definition toggle :: "int \<Rightarrow> int list \<Rightarrow> int list" where
  "toggle u arr = (if u \<notin> set arr then arr @ [u] else remove1 u arr)"

definition reactTo :: "kind \<Rightarrow> int \<Rightarrow> comment \<Rightarrow> comment" where
  "reactTo k u c = c\<lparr>reactions := (reactions c)(k := toggle u (reactions c k))\<rparr>"

text \<open>The requested id is the value of \<^verbatim>\<open>Number(commentId)\<close>, \<open>None\<close> for \<^verbatim>\<open>NaN\<close>.\<close>

definition reactComment :: "int \<Rightarrow> int option \<Rightarrow> jsval \<Rightarrow> db \<Rightarrow> outcome" where
  "reactComment reqUser commentId reaction d =
     (case kindOf reaction of
        None \<Rightarrow> failWith ValidationError
      | Some k \<Rightarrow>
          (case find (hasId commentId) (comments d) of
             None \<Rightarrow> failWith NotFoundError
           | Some c \<Rightarrow>
               saveEmitRespond
                 (d\<lparr>comments := updateFirst (hasId commentId) (reactTo k reqUser) (comments d)\<rparr>)
                 (Reacted (reactions (reactTo k reqUser c)))))"

section \<open>Requests in sequence\<close>

text \<open>
  The document that the next request loads: the last one written, or the one loaded when
  the handler wrote nothing.
\<close>

definition persisted :: "db \<Rightarrow> outcome \<Rightarrow> db" where
  "persisted d out = last (d # saved out)"

text \<open>
  The four mutating routes, and a sequence of requests served one after the other, each
  handler loading the document that the one before it left.
\<close>

datatype request =
    Create int jsval jsval int
  | Edit int "int option" jsval int
  | Delete nat int "int option"
  | React int "int option" jsval

fun handle :: "request \<Rightarrow> db \<Rightarrow> outcome" where
  "handle (Create reqUser body_content body_parentId now) d =
     createComment reqUser body_content body_parentId now d"
| "handle (Edit reqUser commentId body_content now) d =
     editComment reqUser commentId body_content now d"
| "handle (Delete stack reqUser commentId) d = deleteComment stack reqUser commentId d"
| "handle (React reqUser commentId reaction) d = reactComment reqUser commentId reaction d"


text \<open>
  \<^verbatim>\<open>io.emit(event, payload)\<close> of Socket.IO sends the payload to every connected socket. The
  handlers call nothing else (no \<^verbatim>\<open>socket.broadcast\<close>, no room), so no socket is left out.
\<close>

definition io_emit :: "'s list \<Rightarrow> tree \<Rightarrow> ('s \<times> tree) list" where
  "io_emit sockets payload = map (\<lambda>s. (s, payload)) sockets"

definition deliveries :: "'s list \<Rightarrow> outcome \<Rightarrow> ('s \<times> tree) list" where
  "deliveries sockets out = concat (map (io_emit sockets) (emitted out))"

section \<open>Notions the properties are stated with\<close>

subsection \<open>Cascade\<close>

text \<open>
  The ids of a comment and of everything below it: \<open>i\<close> itself, and the id of every comment
  whose \<^verbatim>\<open>parentId\<close> is (strictly equal to) an id already in the set.
\<close>

inductive_set descendants :: "comment list \<Rightarrow> int \<Rightarrow> int set"
  for cs :: "comment list" and i :: int where
  self: "i \<in> descendants cs i"
| child: "p \<in> descendants cs i \<Longrightarrow> c \<in> set cs \<Longrightarrow> parentId c = JNum p
          \<Longrightarrow> cid c \<in> descendants cs i"

text \<open>
  An id that lies on a cycle of \<^verbatim>\<open>parentId\<close> links: one of its replies has it below itself.
\<close>

definition onCycle :: "comment list \<Rightarrow> int \<Rightarrow> bool" where
  "onCycle cs k = (\<exists>c\<in>set cs. parentId c = JNum k \<and> k \<in> descendants cs (cid c))"

subsection \<open>Tree\<close>

text \<open>
  What \<open>buildCommentsTree\<close> is shown to compute: the references pushed onto \<^verbatim>\<open>roots\<close>,
  the references pushed onto the \<^verbatim>\<open>replies\<close> of the entry with key \<open>k\<close>, both in the
  order of the flat list, and the store after the second pass.
\<close>

definition rootKeys :: "comment list \<Rightarrow> string list" where
  "rootKeys cs = map keyOf (filter (\<lambda>c. nullish (parentId c)) cs)"

definition replyKeys :: "comment list \<Rightarrow> string \<Rightarrow> string list" where
  "replyKeys cs k =
     map keyOf (filter (\<lambda>c. \<not> nullish (parentId c) \<and> propKey (parentId c) = k) cs)"

definition grow :: "comment list \<Rightarrow> store \<Rightarrow> store" where
  "grow cs m = (\<lambda>k. map_option (\<lambda>n. n\<lparr>replies := replies n @ replyKeys cs k\<rparr>) (m k))"

text \<open>
  A comment whose \<^verbatim>\<open>parentId\<close> is null, or whose \<^verbatim>\<open>parentId\<close> does not name a member of
  \<^verbatim>\<open>Object.prototype\<close>; a number or null as the data model has it is such a value.
\<close>

definition safeParent :: "comment \<Rightarrow> bool" where
  "safeParent c = (nullish (parentId c) \<or> propKey (parentId c) \<notin> set objectPrototypeKeys)"

subsection \<open>Reactions and ids\<close>

text \<open>The document after a React request, and the reactions of the comment an id resolves to.\<close>

definition afterReact :: "int \<Rightarrow> int option \<Rightarrow> jsval \<Rightarrow> db \<Rightarrow> db" where
  "afterReact u i r d = persisted d (reactComment u i r d)"

definition reactionsOf :: "int option \<Rightarrow> db \<Rightarrow> reactions option" where
  "reactionsOf i d = map_option reactions (find (hasId i) (comments d))"



text \<open>How a successful handler leaves the comment counter, by the kind of its response.\<close>

definition sameCounters :: "db \<Rightarrow> db \<Rightarrow> reply \<Rightarrow> bool" where
  "sameCounters d d' r =
     (case r of Created c \<Rightarrow> cid c = nextCommentId d \<and> nextCommentId d' = nextCommentId d + 1
              | _ \<Rightarrow> nextCommentId d' = nextCommentId d)"

section \<open>Example datasets\<close>

definition user1 :: user where
  "user1 = \<lparr>uid = 1, uname = ''ann'', email = ''ann@example.org'', passwordHash = ''h1'',
     uavatar = ''ann.png''\<rparr>"

definition user2 :: user where
  "user2 = \<lparr>uid = 2, uname = ''bob'', email = ''bob@example.org'', passwordHash = ''h2'',
     uavatar = ''bob.png''\<rparr>"

text \<open>The document after two registrations and before any comment.\<close>

definition freshDb :: db where
  "freshDb = \<lparr>users = [user1, user2], comments = [], nextCommentId = 1, nextUserId = 3\<rparr>"

text \<open>
  The comment with id \<open>i\<close> that \<open>createComment\<close> stores for user \<open>u\<close> (1 or 2) at time
  \<open>t\<close> with content \<^verbatim>\<open>hi\<close> and the stored \<^verbatim>\<open>parentId\<close> \<open>p\<close>.
\<close>

definition mk :: "int \<Rightarrow> int \<Rightarrow> int \<Rightarrow> jsval \<Rightarrow> comment" where
  "mk i u t p =
     \<lparr>cid = i, userId = u, userName = (if u = 1 then ''ann'' else ''bob''),
      avatar = (if u = 1 then ''ann.png'' else ''bob.png''), content = ''hi'', createdAt = t,
      updatedAt = None, parentId = p, reactions = emptyReactions\<rparr>"

text \<open>The board after user 1 posted its first comment, a root.\<close>

definition oneDb :: db where
  "oneDb = freshDb\<lparr>comments := [mk 1 1 1000 JNull], nextCommentId := 2\<rparr>"

text \<open>A comment of user 1 and the reply of user 2 to it.\<close>

definition twoDb :: db where
  "twoDb = freshDb\<lparr>comments := [mk 1 1 1000 JNull, mk 2 2 2000 (JNum 1)], nextCommentId := 3\<rparr>"


text \<open>Three threads, posted at 1000, 2000 and 4000, and two replies to the first.\<close>

definition threads :: "comment list" where
  "threads = [mk 1 1 1000 JNull, mk 2 2 2000 JNull, mk 3 1 3000 (JNum 1), mk 4 2 4000 JNull,
     mk 5 2 5000 (JNum 1)]"

text \<open>The first comment of the board, posted with \<^verbatim>\<open>parentId: 1\<close>, its own id to be.\<close>

definition selfParentDb :: db where
  "selfParentDb = freshDb\<lparr>comments := [mk 1 1 1000 (JNum 1)], nextCommentId := 2\<rparr>"


text \<open>The board after its first comment was posted with \<^verbatim>\<open>parentId: "toString"\<close>.\<close>

definition protoDb :: db where
  "protoDb = freshDb\<lparr>comments := [mk 1 1 1000 (JStr ''toString'')], nextCommentId := 2\<rparr>"



section \<open>Evaluation of keys and of the common tail\<close>

lemma digit_simps:
  "digit 0 = CHR ''0''" "digit (Suc 0) = CHR ''1''" "digit 2 = CHR ''2''" "digit 3 = CHR ''3''"
  "digit 4 = CHR ''4''" "digit 5 = CHR ''5''" "digit 6 = CHR ''6''" "digit 7 = CHR ''7''"
  "digit 8 = CHR ''8''" "digit 9 = CHR ''9''"
  using char_of_char[of "CHR ''0''", where ?'a = nat] char_of_char[of "CHR ''1''", where ?'a = nat]
    char_of_char[of "CHR ''2''", where ?'a = nat] char_of_char[of "CHR ''3''", where ?'a = nat]
    char_of_char[of "CHR ''4''", where ?'a = nat] char_of_char[of "CHR ''5''", where ?'a = nat]
    char_of_char[of "CHR ''6''", where ?'a = nat] char_of_char[of "CHR ''7''", where ?'a = nat]
    char_of_char[of "CHR ''8''", where ?'a = nat] char_of_char[of "CHR ''9''", where ?'a = nat]
  by (simp_all add: digit_def)

lemmas key_eval = keyOf_def numToString_def natToString.simps digit_simps

lemma saved_saveEmitRespond: "saved (saveEmitRespond d r) = [d]"
  by (simp add: saveEmitRespond_def split: sum.split)

lemma trim_hi: "trim ''hi'' = ''hi''"
  by (simp add: trim_def isSpace_def)

section \<open>Cascade delete\<close>

lemma descendants_trans:
  "j \<in> descendants cs p \<Longrightarrow> p \<in> descendants cs i \<Longrightarrow> j \<in> descendants cs i"
  by (induction rule: descendants.induct) (auto intro: descendants.intros)

lemma descendants_unfold:
  "descendants cs i =
     insert i (\<Union>c \<in> set (filter (\<lambda>c. parentId c = JNum i) cs). descendants cs (cid c))"
proof (rule set_eqI, rule iffI)
  fix j assume "j \<in> descendants cs i"
  then show "j \<in> insert i (\<Union>c \<in> set (filter (\<lambda>c. parentId c = JNum i) cs).
                              descendants cs (cid c))"
  proof (induction rule: descendants.induct)
    case self
    then show ?case by simp
  next
    case (child p c)
    then show ?case
      by (auto intro: descendants.intros)
  qed
next
  fix j assume "j \<in> insert i (\<Union>c \<in> set (filter (\<lambda>c. parentId c = JNum i) cs).
                              descendants cs (cid c))"
  then show "j \<in> descendants cs i"
    by (auto intro: descendants.intros descendants_trans)
qed



lemma find_hasId: "find (hasId (Some i)) cs = Some C \<Longrightarrow> cid C = i \<and> C \<in> set cs"
  by (auto simp: find_Some_iff hasId_def)



lemma fold_mark_None:
  "fold (\<lambda>child r. case r of None \<Rightarrow> None | Some s \<Rightarrow> f child s) xs None = None"
  by (induction xs) simp_all

lemma fold_mark_overflow:
  assumes "c \<in> set xs" and "\<forall>s. f c s = None"
  shows "fold (\<lambda>child r. case r of None \<Rightarrow> None | Some s \<Rightarrow> f child s) xs r0 = None"
  using assms(1)
proof (induction xs arbitrary: r0)
  case Nil
  then show ?case by simp
next
  case (Cons x xs)
  show ?case
  proof (cases "x = c")
    case True
    then have "(case r0 of None \<Rightarrow> None | Some s \<Rightarrow> f x s) = None"
      using assms(2) by (cases r0) simp_all
    then show ?thesis by (simp add: fold_mark_None)
  next
    case False
    with Cons.prems have "c \<in> set xs" by simp
    then show ?thesis using Cons.IH by simp
  qed
qed

lemma markDescendants_loops:
  assumes "onCycle cs k"
  shows "k \<in> descendants cs j \<Longrightarrow> markDescendants n cs j acc = None"
proof (induction n arbitrary: j acc)
  case 0
  then show ?case by simp
next
  case (Suc n)
  have "\<exists>c \<in> set (filter (\<lambda>c. parentId c = JNum j) cs). k \<in> descendants cs (cid c)"
  proof (cases "k = j")
    case True
    with assms show ?thesis by (auto simp: onCycle_def)
  next
    case False
    from Suc.prems have "k \<in> insert j (\<Union>c \<in> set (filter (\<lambda>c. parentId c = JNum j) cs).
                              descendants cs (cid c))"
      by (subst descendants_unfold[symmetric])
    with False show ?thesis by auto
  qed
  then obtain c where c: "c \<in> set (filter (\<lambda>c. parentId c = JNum j) cs)"
    and k: "k \<in> descendants cs (cid c)" by blast
  have "\<forall>s. markDescendants n cs (cid c) s = None"
    using Suc.IH[OF k] by simp
  with c show ?case
    using fold_mark_overflow[of c "filter (\<lambda>c. parentId c = JNum j) cs"
        "\<lambda>child s. markDescendants n cs (cid child) s" "Some (insert j acc)"]
    by simp
qed

text \<open>
  C1. The claim is that the cascade traversal of Delete terminates on every dataset, cyclic
  \<^verbatim>\<open>parentId\<close> links included, each id being visited at most once. On the code it does
  not: \<^verbatim>\<open>markDescendants\<close> never consults \<^verbatim>\<open>toRemove\<close>, so whenever an id on a cycle
  lies below the comment to delete, the author's Delete overflows the call stack, however
  deep the stack is; nothing is written and no response is sent.
\<close>

theorem delete_cycle_overflows:
  assumes "find (hasId (Some i)) (comments d) = Some C"
    and "userId C = reqUser"
    and "k \<in> descendants (comments d) i"
    and "onCycle (comments d) k"
  shows "deleteComment stack reqUser (Some i) d = failWith StackOverflow"
proof -
  have "cid C = i" using assms(1) by (simp add: find_hasId)
  moreover have "markDescendants stack (comments d) i {} = None"
    using assms(4,3) by (rule markDescendants_loops)
  ultimately show ?thesis using assms(1,2) by (simp add: deleteComment_def)
qed

text \<open>
  Such a dataset is one request away: the first comment of a fresh board, posted with
  \<^verbatim>\<open>parentId: 1\<close>, is stored as its own parent, and its author cannot delete it.
\<close>

theorem delete_self_parent_overflows:
  "saved (createComment 1 (JStr ''hi'') (JNum 1) 1000 freshDb) = [selfParentDb]
   \<and> find (hasId (Some 1)) (comments selfParentDb) = Some (mk 1 1 1000 (JNum 1))
   \<and> userId (mk 1 1 1000 (JNum 1)) = 1
   \<and> 1 \<in> descendants (comments selfParentDb) 1
   \<and> onCycle (comments selfParentDb) 1
   \<and> (\<forall>stack. deleteComment stack 1 (Some 1) selfParentDb = failWith StackOverflow)"
proof -
  have c: "saved (createComment 1 (JStr ''hi'') (JNum 1) 1000 freshDb) = [selfParentDb]"
    by (simp add: createComment_def checkContent_def trim_hi freshDb_def user1_def
        saved_saveEmitRespond mk_def storedParentId_def selfParentDb_def Let_def)
  have h1: "find (hasId (Some 1)) (comments selfParentDb) = Some (mk 1 1 1000 (JNum 1))"
    by (simp add: selfParentDb_def hasId_def mk_def)
  have h2: "userId (mk 1 1 1000 (JNum 1)) = 1" by (simp add: mk_def)
  have h3: "1 \<in> descendants (comments selfParentDb) 1" by (rule descendants.self)
  have "mk 1 1 1000 (JNum 1) \<in> set (comments selfParentDb)
        \<and> parentId (mk 1 1 1000 (JNum 1)) = JNum 1
        \<and> 1 \<in> descendants (comments selfParentDb) (cid (mk 1 1 1000 (JNum 1)))"
    using h3 by (simp add: selfParentDb_def mk_def)
  then have h4: "onCycle (comments selfParentDb) 1"
    unfolding onCycle_def by blast
  from delete_cycle_overflows[OF h1 h2 h3 h4] c h1 h2 h3 h4 show ?thesis by simp
qed







section \<open>Property keys of numbers\<close>

text \<open>
  Decimal printing is injective, so comments with different ids have different entries in
  \<^verbatim>\<open>map\<close>, and no printed number is the name of a member of \<^verbatim>\<open>Object.prototype\<close>.
\<close>

lemma digit_inj: "a < 10 \<Longrightarrow> b < 10 \<Longrightarrow> digit a = digit b \<Longrightarrow> a = b"
  by (simp add: digit_def char_of_eq_iff take_bit_eq_mod)

lemma natToString_nonempty: "natToString n \<noteq> []"
  by (subst natToString.simps) simp

lemma natToString_inj: "natToString n = natToString m \<Longrightarrow> n = m"
proof (induction n arbitrary: m rule: natToString.induct)
  case (1 n)
  show ?case
  proof (cases "n < 10")
    case True
    show ?thesis
    proof (cases "m < 10")
      case mlt: True
      from "1.prems" True mlt have "digit n = digit m"
        by (simp add: natToString.simps[of n] natToString.simps[of m])
      with True mlt show ?thesis by (rule digit_inj)
    next
      case False
      from "1.prems" True False have "natToString (m div 10) = []"
        by (simp add: natToString.simps[of n] natToString.simps[of m])
      then show ?thesis using natToString_nonempty by blast
    qed
  next
    case nge: False
    show ?thesis
    proof (cases "m < 10")
      case True
      from "1.prems" True nge have "natToString (n div 10) = []"
        by (simp add: natToString.simps[of n] natToString.simps[of m])
      then show ?thesis using natToString_nonempty by blast
    next
      case False
      from "1.prems" nge False
      have "natToString (n div 10) = natToString (m div 10)" and "digit (n mod 10) = digit (m mod 10)"
        by (simp_all add: natToString.simps[of n] natToString.simps[of m])
      then have "n div 10 = m div 10" and "n mod 10 = m mod 10"
        using "1.IH"[OF nge] digit_inj[of "n mod 10" "m mod 10"] by auto
      then have "n div 10 * 10 + n mod 10 = m div 10 * 10 + m mod 10" by simp
      then show ?thesis by (simp only: div_mult_mod_eq)
    qed
  qed
qed

lemma digit_in: "d < 10 \<Longrightarrow> digit d \<in> set ''0123456789''"
proof -
  assume "d < 10"
  then have "d \<in> {0, 1, 2, 3, 4, 5, 6, 7, 8, 9}" by auto
  then show ?thesis using digit_simps by auto
qed

lemma natToString_digits: "set (natToString n) \<subseteq> set ''0123456789''"
proof (induction n rule: natToString.induct)
  case (1 n)
  show ?case
  proof (cases "n < 10")
    case True
    then show ?thesis using digit_in[of n] by (simp add: natToString.simps[of n])
  next
    case False
    then show ?thesis using "1.IH" digit_in[of "n mod 10"]
      by (simp add: natToString.simps[of n])
  qed
qed

lemma numToString_chars: "set (numToString i) \<subseteq> set ''-0123456789''"
proof -
  have sub: "set ''0123456789'' \<subseteq> set ''-0123456789''"
    by (rule set_subset_Cons)
  have nat_sub: "set (natToString n) \<subseteq> set ''-0123456789''" for n
    using natToString_digits[of n] sub by (rule subset_trans)
  show ?thesis
  proof (cases "i < 0")
    case True
    then have "set (numToString i) = insert CHR ''-'' (set (natToString (nat (- i))))"
      by (simp add: numToString_def)
    also have "\<dots> \<subseteq> set ''-0123456789''"
      using nat_sub[of "nat (- i)"] by (simp only: insert_subset list.set insertI1 simp_thms)
    finally show ?thesis .
  next
    case False
    then show ?thesis using nat_sub[of "nat i"] by (simp add: numToString_def)
  qed
qed

lemma numToString_inj: "numToString i = numToString j \<Longrightarrow> i = j"
proof -
  assume eq: "numToString i = numToString j"
  have "CHR ''-'' \<notin> set ''0123456789''" by simp
  then have nm: "CHR ''-'' \<notin> set (natToString n)" for n
    using natToString_digits[of n] by blast
  have hd: "natToString n \<noteq> CHR ''-'' # xs" for n xs
    using nm[of n] by auto
  show ?thesis
  proof (cases "i < 0")
    case True
    show ?thesis
    proof (cases "j < 0")
      case jneg: True
      with True eq have "nat (- i) = nat (- j)"
        by (simp add: numToString_def natToString_inj)
      with True jneg show ?thesis by simp
    next
      case False
      with True eq hd[of "nat j" "natToString (nat (- i))"] show ?thesis
        by (simp add: numToString_def)
    qed
  next
    case ipos: False
    show ?thesis
    proof (cases "j < 0")
      case True
      with ipos eq hd[of "nat i"] show ?thesis by (simp add: numToString_def)
    next
      case False
      with ipos eq have "nat i = nat j"
        by (simp add: numToString_def natToString_inj)
      with ipos False show ?thesis by simp
    qed
  qed
qed

lemma keyOf_inj: "keyOf a = keyOf b \<longleftrightarrow> cid a = cid b"
  by (auto simp: keyOf_def dest: numToString_inj)

lemma proto_has_letter: "k \<in> set objectPrototypeKeys \<Longrightarrow> hd k \<notin> set ''-0123456789'' \<and> k \<noteq> []"
  unfolding objectPrototypeKeys_def by fastforce

lemma numToString_not_proto: "numToString i \<notin> set objectPrototypeKeys"
proof
  assume "numToString i \<in> set objectPrototypeKeys"
  then have "hd (numToString i) \<notin> set ''-0123456789''" and "numToString i \<noteq> []"
    using proto_has_letter by blast+
  then show False using numToString_chars[of i] hd_in_set[of "numToString i"] by blast
qed

section \<open>The tree builder\<close>

lemma grow_Nil: "grow [] m = m"
  by (rule ext) (simp add: grow_def replyKeys_def option.map_ident)

lemma grow_skip:
  "nullish (parentId c) \<or> m (propKey (parentId c)) = None \<Longrightarrow> grow (c # cs) m = grow cs m"
  by (rule ext) (auto simp: grow_def replyKeys_def)

lemma grow_push:
  assumes "\<not> nullish (parentId c)" and "m (propKey (parentId c)) = Some p"
  shows "grow cs (m(propKey (parentId c) \<mapsto> p\<lparr>replies := replies p @ [keyOf c]\<rparr>))
         = grow (c # cs) m"
  using assms by (intro ext) (simp add: grow_def replyKeys_def)

lemma attach_cases:
  assumes "attach c (r0, m0) = Inr (r1, m1)"
  shows "r1 = r0 @ rootKeys [c] \<and> grow cs m1 = grow (c # cs) m0"
proof (cases "nullish (parentId c)")
  case True
  with assms have "r1 = r0 @ [keyOf c]" and "m1 = m0" by (simp_all add: attach_def)
  with True show ?thesis by (simp add: rootKeys_def grow_skip)
next
  case False
  show ?thesis
  proof (cases "m0 (propKey (parentId c))")
    case None
    with False assms have "r1 = r0" and "m1 = m0"
      by (simp_all add: attach_def split: if_splits)
    with False None show ?thesis by (simp add: rootKeys_def grow_skip)
  next
    case (Some p)
    with False assms have "r1 = r0"
      and "m1 = m0(propKey (parentId c) \<mapsto> p\<lparr>replies := replies p @ [keyOf c]\<rparr>)"
      by (simp_all add: attach_def)
    with False Some show ?thesis by (simp add: rootKeys_def grow_push)
  qed
qed

lemma attachAll_Inr:
  "attachAll cs (r0, m0) = Inr (r, m) \<Longrightarrow> r = r0 @ rootKeys cs \<and> m = grow cs m0"
proof (induction cs arbitrary: r0 m0)
  case Nil
  then show ?case by (simp add: rootKeys_def grow_Nil)
next
  case (Cons c cs)
  from Cons.prems obtain r1 m1 where a: "attach c (r0, m0) = Inr (r1, m1)"
    and rest: "attachAll cs (r1, m1) = Inr (r, m)"
    by (auto split: sum.splits)
  from attach_cases[OF a] have r1: "r1 = r0 @ rootKeys [c]" and g: "grow cs m1 = grow (c # cs) m0"
    by blast+
  from Cons.IH[OF rest] have "r = r1 @ rootKeys cs" and "m = grow cs m1" by auto
  with r1 g show ?case by (simp add: rootKeys_def)
qed

lemma attach_safe: "safeParent c \<Longrightarrow> \<exists>t'. attach c t = Inr t'"
  by (cases t) (auto simp: attach_def safeParent_def split: option.splits)

lemma attachAll_safe: "\<forall>c\<in>set cs. safeParent c \<Longrightarrow> \<exists>t'. attachAll cs t = Inr t'"
proof (induction cs arbitrary: t)
  case Nil
  then show ?case by simp
next
  case (Cons c cs)
  then obtain t1 where "attach c t = Inr t1" using attach_safe[of c t] by auto
  with Cons show ?case by simp
qed

lemma attach_error: "attach c t = Inl e \<Longrightarrow> e = TypeError \<and> \<not> safeParent c"
  by (cases t) (auto simp: attach_def safeParent_def split: option.splits if_splits)

lemma attachAll_error: "attachAll cs t = Inl e \<Longrightarrow> e = TypeError \<and> (\<exists>c\<in>set cs. \<not> safeParent c)"
proof (induction cs arbitrary: t)
  case Nil
  then show ?case by simp
next
  case (Cons c cs)
  then show ?case 
    by (cases "attach c t") (auto dest: attach_error)
qed

lemma createdAtOf_grow: "createdAtOf (grow cs m) k = createdAtOf m k"
  by (simp add: createdAtOf_def grow_def split: option.splits)

lemma buildCommentsTree_Inr:
  assumes "buildCommentsTree cs = Inr (roots, m)"
  shows "roots = sort_key (\<lambda>k. - createdAtOf (fillMap cs) k) (rootKeys cs) \<and> m = grow cs (fillMap cs)"
proof -
  from assms obtain r0 where a: "attachAll cs ([], fillMap cs) = Inr (r0, m)"
    and r: "roots = sort_key (\<lambda>k. - createdAtOf m k) r0"
    by (auto simp: buildCommentsTree_def split: sum.splits prod.splits)
  from attachAll_Inr[OF a] have "r0 = rootKeys cs" and "m = grow cs (fillMap cs)" by auto
  with r show ?thesis by (simp add: createdAtOf_grow)
qed

lemma buildCommentsTree_safe:
  assumes "\<forall>c\<in>set cs. safeParent c"
  shows "\<exists>t. buildCommentsTree cs = Inr t"
proof -
  from attachAll_safe[OF assms] obtain t' where "attachAll cs ([], fillMap cs) = Inr t'" by blast
  then show ?thesis by (cases t') (simp add: buildCommentsTree_def)
qed

lemma buildCommentsTree_error:
  "buildCommentsTree cs = Inl e \<Longrightarrow> e = TypeError \<and> (\<exists>c\<in>set cs. \<not> safeParent c)"
  by (auto simp: buildCommentsTree_def split: sum.splits prod.splits dest: attachAll_error)


lemma fillMap_snoc: "fillMap (cs @ [c]) = (fillMap cs)(keyOf c \<mapsto> \<lparr>ncomment = c, replies = []\<rparr>)"
  by (simp add: fillMap_def)

lemma fillMap_distinct:
  "distinct (map keyOf cs) \<Longrightarrow> c \<in> set cs \<Longrightarrow>
   fillMap cs (keyOf c) = Some \<lparr>ncomment = c, replies = []\<rparr>"
proof (induction cs rule: rev_induct)
  case Nil
  then show ?case by simp
next
  case (snoc x xs)
  show ?case
  proof (cases "c = x")
    case True
    then show ?thesis by (simp add: fillMap_snoc)
  next
    case False
    with snoc.prems have "c \<in> set xs" and "keyOf c \<noteq> keyOf x" and "distinct (map keyOf xs)"
      by (auto simp: image_iff)
    with snoc.IH show ?thesis by (simp add: fillMap_snoc)
  qed
qed

lemma fillMap_dom: "fillMap cs k \<noteq> None \<longleftrightarrow> k \<in> keyOf ` set cs"
proof (induction cs rule: rev_induct)
  case Nil
  then show ?case by (simp add: fillMap_def)
next
  case (snoc x xs)
  then show ?case by (auto simp: fillMap_snoc)
qed

lemma distinct_keys: "distinct (map cid cs) \<Longrightarrow> distinct (map keyOf cs)"
proof -
  assume d: "distinct (map cid cs)"
  have "map keyOf cs = map numToString (map cid cs)"
    by (simp add: keyOf_def)
  moreover have "inj_on numToString (set (map cid cs))"
    by (rule inj_onI) (rule numToString_inj)
  ultimately show ?thesis using d by (simp only: distinct_map)
qed

lemma insort_key_map:
  "insort_key g (h x) (map h ys) = map h (insort_key (\<lambda>y. g (h y)) x ys)"
  by (induction ys) simp_all

lemma sort_key_map: "sort_key g (map h xs) = map h (sort_key (\<lambda>y. g (h y)) xs)"
  by (induction xs) (simp_all add: insort_key_map)

lemma insort_key_agree:
  "f x = g x \<Longrightarrow> \<forall>y\<in>set ys. f y = g y \<Longrightarrow> insort_key f x ys = insort_key g x ys"
  by (induction ys) simp_all

lemma sort_key_agree: "\<forall>x\<in>set xs. f x = g x \<Longrightarrow> sort_key f xs = sort_key g xs"
proof (induction xs)
  case Nil
  then show ?case by simp
next
  case (Cons x xs)
  then have "sort_key f xs = sort_key g xs" by simp
  moreover have "insort_key f x (sort_key g xs) = insort_key g x (sort_key g xs)"
    using Cons.prems by (intro insort_key_agree) simp_all
  ultimately show ?case by simp
qed

lemma sorted_descending:
  "sorted_wrt (\<lambda>a b. createdAt b \<le> createdAt a) (sort_key (\<lambda>c. - createdAt c) xs)"
proof -
  have "sorted (map (\<lambda>c. - createdAt c) (sort_key (\<lambda>c. - createdAt c) xs))"
    by (rule sorted_sort_key)
  then show ?thesis by (simp add: sorted_map)
qed

text \<open>
  C3. For every flat list (of comments with distinct ids, none of whose \<^verbatim>\<open>parentId\<close> names
  a member of \<^verbatim>\<open>Object.prototype\<close>), \<open>buildCommentsTree\<close> returns; the nodes it returns as
  roots are those of the comments with a null \<^verbatim>\<open>parentId\<close>, sorted by \<open>createdAt\<close> descending
  (stably); and the \<^verbatim>\<open>replies\<close> of the node of each comment are the references to its
  replies in the order of the flat list.
\<close>

theorem buildCommentsTree_order:
  assumes "distinct (map cid cs)" and "\<forall>c\<in>set cs. safeParent c"
  shows "\<exists>roots m. buildCommentsTree cs = Inr (roots, m)
     \<and> map (\<lambda>k. map_option ncomment (m k)) roots
         = map Some (sort_key (\<lambda>c. - createdAt c) (filter (\<lambda>c. nullish (parentId c)) cs))
     \<and> sorted_wrt (\<lambda>a b. createdAt b \<le> createdAt a)
         (sort_key (\<lambda>c. - createdAt c) (filter (\<lambda>c. nullish (parentId c)) cs))
     \<and> (\<forall>c\<in>set cs. map_option ncomment (m (keyOf c)) = Some c
           \<and> map_option replies (m (keyOf c))
               = Some (map keyOf (filter (\<lambda>r. \<not> nullish (parentId r)
                                            \<and> propKey (parentId r) = keyOf c) cs)))"
proof -
  let ?R = "filter (\<lambda>c. nullish (parentId c)) cs"
  from buildCommentsTree_safe[OF assms(2)] obtain roots m
    where b: "buildCommentsTree cs = Inr (roots, m)" by (cases) auto
  from buildCommentsTree_Inr[OF b]
  have roots: "roots = sort_key (\<lambda>k. - createdAtOf (fillMap cs) k) (rootKeys cs)"
    and m: "m = grow cs (fillMap cs)" by auto
  have dk: "distinct (map keyOf cs)" using assms(1) by (rule distinct_keys)
  have node: "m (keyOf c) = Some \<lparr>ncomment = c, replies = replyKeys cs (keyOf c)\<rparr>"
    if "c \<in> set cs" for c
    using fillMap_distinct[OF dk that] by (simp add: m grow_def)
  have at: "createdAtOf (fillMap cs) (keyOf c) = createdAt c" if "c \<in> set cs" for c
    using fillMap_distinct[OF dk that] by (simp add: createdAtOf_def)
  have "roots = map keyOf (sort_key (\<lambda>c. - createdAtOf (fillMap cs) (keyOf c)) ?R)"
    by (simp add: roots rootKeys_def sort_key_map)
  also have "sort_key (\<lambda>c. - createdAtOf (fillMap cs) (keyOf c)) ?R
             = sort_key (\<lambda>c. - createdAt c) ?R"
    by (rule sort_key_agree) (simp add: at)
  finally have r: "roots = map keyOf (sort_key (\<lambda>c. - createdAt c) ?R)" .
  have "map (\<lambda>k. map_option ncomment (m k)) roots
        = map Some (sort_key (\<lambda>c. - createdAt c) ?R)"
    unfolding r by (simp add: node)
  moreover have "\<forall>c\<in>set cs. map_option ncomment (m (keyOf c)) = Some c
           \<and> map_option replies (m (keyOf c))
               = Some (map keyOf (filter (\<lambda>r. \<not> nullish (parentId r)
                                            \<and> propKey (parentId r) = keyOf c) cs))"
    by (simp add: node replyKeys_def)
  ultimately show ?thesis using b sorted_descending by blast
qed

lemma numeric_safe: "parentId c = JNum n \<Longrightarrow> safeParent c"
  by (simp add: safeParent_def numToString_not_proto)

text \<open>
  On \<open>threads\<close> the roots come back as 4, 2, 1 (posted at 4000, 2000, 1000) and the
  replies of comment 1 as 3 then 5.
\<close>

theorem buildCommentsTree_order_witness:
  "distinct (map cid threads) \<and> list_all safeParent threads
   \<and> (\<exists>roots m. buildCommentsTree threads = Inr (roots, m)
        \<and> map (\<lambda>k. map_option ncomment (m k)) roots
            = [Some (mk 4 2 4000 JNull), Some (mk 2 2 2000 JNull), Some (mk 1 1 1000 JNull)]
        \<and> map_option replies (m (keyOf (mk 1 1 1000 JNull)))
            = Some [keyOf (mk 3 1 3000 (JNum 1)), keyOf (mk 5 2 5000 (JNum 1))])"
proof -
  have h1: "distinct (map cid threads)" by (simp add: threads_def mk_def)
  have h2: "\<forall>c\<in>set threads. safeParent c"
    by (simp add: threads_def mk_def safeParent_def numToString_not_proto)
  from buildCommentsTree_order[OF h1 h2] obtain roots m
    where b: "buildCommentsTree threads = Inr (roots, m)"
      and r: "map (\<lambda>k. map_option ncomment (m k)) roots
         = map Some (sort_key (\<lambda>c. - createdAt c) (filter (\<lambda>c. nullish (parentId c)) threads))"
      and n: "\<forall>c\<in>set threads. map_option ncomment (m (keyOf c)) = Some c
           \<and> map_option replies (m (keyOf c))
               = Some (map keyOf (filter (\<lambda>r. \<not> nullish (parentId r)
                                            \<and> propKey (parentId r) = keyOf c) threads))"
    by blast
  have s: "sort_key (\<lambda>c. - createdAt c) (filter (\<lambda>c. nullish (parentId c)) threads)
           = [mk 4 2 4000 JNull, mk 2 2 2000 JNull, mk 1 1 1000 JNull]"
    by (simp add: threads_def mk_def)
  have "mk 1 1 1000 JNull \<in> set threads" by (simp add: threads_def)
  with n have "map_option replies (m (keyOf (mk 1 1 1000 JNull)))
               = Some (map keyOf (filter (\<lambda>r. \<not> nullish (parentId r)
                         \<and> propKey (parentId r) = keyOf (mk 1 1 1000 JNull)) threads))"
    by blast
  also have "filter (\<lambda>r. \<not> nullish (parentId r)
                         \<and> propKey (parentId r) = keyOf (mk 1 1 1000 JNull)) threads
             = [mk 3 1 3000 (JNum 1), mk 5 2 5000 (JNum 1)]"
    by (simp add: threads_def mk_def key_eval)
  finally have rep: "map_option replies (m (keyOf (mk 1 1 1000 JNull)))
            = Some [keyOf (mk 3 1 3000 (JNum 1)), keyOf (mk 5 2 5000 (JNum 1))]"
    by simp
  from h2 have "list_all safeParent threads" by (simp add: list_all_iff)
  with b r s rep h1 show ?thesis by auto
qed

section \<open>Orphans\<close>

lemma attach_Inr_safe:
  assumes "\<forall>k\<in>set objectPrototypeKeys. m0 k = None"
    and "attach c (r0, m0) = Inr (r1, m1)"
  shows "safeParent c \<and> (\<forall>k\<in>set objectPrototypeKeys. m1 k = None)"
proof (cases "nullish (parentId c)")
  case True
  with assms show ?thesis by (simp add: attach_def safeParent_def)
next
  case False
  show ?thesis
  proof (cases "m0 (propKey (parentId c))")
    case None
    with False assms show ?thesis
      by (simp add: attach_def safeParent_def split: if_splits)
  next
    case (Some p)
    with assms(1) have notin: "propKey (parentId c) \<notin> set objectPrototypeKeys" by auto
    from Some False assms(2)
    have "m1 = m0(propKey (parentId c) \<mapsto> p\<lparr>replies := replies p @ [keyOf c]\<rparr>)"
      by (simp add: attach_def)
    with notin assms(1) show ?thesis by (auto simp: safeParent_def)
  qed
qed

lemma attachAll_Inr_safe:
  "\<forall>k\<in>set objectPrototypeKeys. m0 k = None \<Longrightarrow> attachAll cs (r0, m0) = Inr t
   \<Longrightarrow> \<forall>c\<in>set cs. safeParent c"
proof (induction cs arbitrary: r0 m0)
  case Nil
  then show ?case by simp
next
  case (Cons c cs)
  from Cons.prems(2) obtain r1 m1 where a: "attach c (r0, m0) = Inr (r1, m1)"
    and rest: "attachAll cs (r1, m1) = Inr t"
    by (auto split: sum.splits)
  from attach_Inr_safe[OF Cons.prems(1) a]
  have "safeParent c" and "\<forall>k\<in>set objectPrototypeKeys. m1 k = None" by auto
  with Cons.IH[OF _ rest] show ?case by simp
qed

lemma fillMap_no_prototype_key: "\<forall>k\<in>set objectPrototypeKeys. fillMap cs k = None"
proof
  fix k assume k: "k \<in> set objectPrototypeKeys"
  show "fillMap cs k = None"
  proof (rule ccontr)
    assume "fillMap cs k \<noteq> None"
    then obtain c where "k = keyOf c" using fillMap_dom[of cs k] by auto
    with k numToString_not_proto[of "cid c"] show False by (simp add: keyOf_def)
  qed
qed

text \<open>
  C8. The claim is that \<open>buildCommentsTree\<close> never errors and silently drops a comment
  whose \<^verbatim>\<open>parentId\<close> references no comment. On the code, a \<^verbatim>\<open>parentId\<close> that names a member of
  \<^verbatim>\<open>Object.prototype\<close> passes the test \<^verbatim>\<open>if (map[c.parentId])\<close> and the push fails: on every
  flat list that holds such a comment the function raises a TypeError.
\<close>

theorem prototype_parent_throws:
  assumes "c \<in> set cs" and "\<not> nullish (parentId c)"
    and "propKey (parentId c) \<in> set objectPrototypeKeys"
  shows "buildCommentsTree cs = Inl TypeError"
proof (cases "buildCommentsTree cs")
  case (Inl e)
  then show ?thesis using buildCommentsTree_error[of cs e] by simp
next
  case (Inr t)
  then obtain t' where "attachAll cs ([], fillMap cs) = Inr t'"
    by (auto simp: buildCommentsTree_def split: sum.splits)
  with fillMap_no_prototype_key[of cs] have "\<forall>c\<in>set cs. safeParent c"
    by (rule attachAll_Inr_safe)
  with assms show ?thesis by (auto simp: safeParent_def)
qed

text \<open>
  Such a list is one request away: posting a comment with \<^verbatim>\<open>parentId: "toString"\<close> writes
  it, and from then on every build of the tree fails, in this request and in every later
  read of the comments.
\<close>

theorem create_prototype_parent_throws:
  "createComment 1 (JStr ''hi'') (JStr ''toString'') 1000 freshDb
     = \<lparr>saved = [protoDb], emitted = [], response = Inl TypeError\<rparr>
   \<and> mk 1 1 1000 (JStr ''toString'') \<in> set (comments protoDb)
   \<and> \<not> nullish (parentId (mk 1 1 1000 (JStr ''toString'')))
   \<and> propKey (parentId (mk 1 1 1000 (JStr ''toString''))) \<in> set objectPrototypeKeys
   \<and> buildCommentsTree (comments protoDb) = Inl TypeError"
proof -
  have h1: "mk 1 1 1000 (JStr ''toString'') \<in> set (comments protoDb)"
    by (simp add: protoDb_def)
  have h2: "\<not> nullish (parentId (mk 1 1 1000 (JStr ''toString'')))"
    by (simp add: mk_def)
  have h3: "propKey (parentId (mk 1 1 1000 (JStr ''toString''))) \<in> set objectPrototypeKeys"
    by (simp add: mk_def objectPrototypeKeys_def)
  note b = prototype_parent_throws[OF h1 h2 h3]
  have "createComment 1 (JStr ''hi'') (JStr ''toString'') 1000 freshDb
        = saveEmitRespond protoDb (Created (mk 1 1 1000 (JStr ''toString'')))"
    by (simp add: createComment_def checkContent_def trim_hi freshDb_def user1_def
        mk_def storedParentId_def protoDb_def Let_def)
  with b h1 h2 h3 show ?thesis by (simp add: saveEmitRespond_def)
qed

lemma count_list_map_filter:
  "distinct (map f xs) \<Longrightarrow> x \<in> set xs \<Longrightarrow>
   count_list (map f (filter P xs)) (f x) = (if P x then 1 else 0)"
proof (induction xs)
  case Nil
  then show ?case by simp
next
  case (Cons y ys)
  show ?case
  proof (cases "x = y")
    case True
    with Cons.prems have "f y \<notin> set (map f (filter P ys))" by auto
    then have "count_list (map f (filter P ys)) (f y) = 0" by (simp add: count_list_0_iff)
    with True show ?thesis by simp
  next
    case False
    with Cons.prems have "x \<in> set ys" and "f y \<noteq> f x" and "distinct (map f ys)"
      by (auto simp: image_iff)
    with Cons.IH show ?thesis by simp
  qed
qed

lemma count_list_sort_key: "count_list (sort_key f xs) y = count_list xs y"
proof -
  have "count (mset (sort_key f xs)) y = count (mset xs) y" by simp
  then show ?thesis by (simp only: count_mset)
qed

text \<open>
  Where the ids are distinct and no \<^verbatim>\<open>parentId\<close> names a member of \<^verbatim>\<open>Object.prototype\<close>, the
  builder returns and each comment is pushed as the claim says: once onto the roots when
  its \<^verbatim>\<open>parentId\<close> is null, once onto the \<^verbatim>\<open>replies\<close> of the entry its \<^verbatim>\<open>parentId\<close> names when
  there is one, and nowhere when there is none.
\<close>

lemma buildCommentsTree_placement:
  assumes "distinct (map cid cs)" and "\<forall>c\<in>set cs. safeParent c"
  shows "\<exists>roots m. buildCommentsTree cs = Inr (roots, m)
     \<and> (\<forall>c\<in>set cs.
          count_list roots (keyOf c) = (if nullish (parentId c) then 1 else 0)
        \<and> (\<forall>k n. m k = Some n \<longrightarrow>
              count_list (replies n) (keyOf c)
                = (if \<not> nullish (parentId c) \<and> propKey (parentId c) = k then 1 else 0))
        \<and> (m (propKey (parentId c)) \<noteq> None \<longleftrightarrow> propKey (parentId c) \<in> keyOf ` set cs))"
proof -
  from buildCommentsTree_safe[OF assms(2)] obtain roots m
    where b: "buildCommentsTree cs = Inr (roots, m)" by (cases) auto
  from buildCommentsTree_Inr[OF b]
  have roots: "roots = sort_key (\<lambda>k. - createdAtOf (fillMap cs) k) (rootKeys cs)"
    and m: "m = grow cs (fillMap cs)" by auto
  have dk: "distinct (map keyOf cs)" using assms(1) by (rule distinct_keys)
  have "\<forall>c\<in>set cs.
          count_list roots (keyOf c) = (if nullish (parentId c) then 1 else 0)
        \<and> (\<forall>k n. m k = Some n \<longrightarrow>
              count_list (replies n) (keyOf c)
                = (if \<not> nullish (parentId c) \<and> propKey (parentId c) = k then 1 else 0))
        \<and> (m (propKey (parentId c)) \<noteq> None \<longleftrightarrow> propKey (parentId c) \<in> keyOf ` set cs)"
  proof (intro ballI conjI allI impI)
    fix c assume c: "c \<in> set cs"
    show "count_list roots (keyOf c) = (if nullish (parentId c) then 1 else 0)"
      unfolding roots rootKeys_def count_list_sort_key
      using dk c by (rule count_list_map_filter)
    show "m (propKey (parentId c)) \<noteq> None \<longleftrightarrow> propKey (parentId c) \<in> keyOf ` set cs"
      using fillMap_dom[of cs "propKey (parentId c)"] by (simp add: m grow_def)
  next
    fix c k n assume c: "c \<in> set cs" and n: "m k = Some n"
    from n obtain n0 where n0: "fillMap cs k = Some n0"
      and nn: "n = n0\<lparr>replies := replies n0 @ replyKeys cs k\<rparr>"
      by (auto simp: m grow_def)
    from n0 obtain c0 where "c0 \<in> set cs" and "k = keyOf c0"
      using fillMap_dom[of cs k] by auto
    with n0 have "replies n0 = []" using fillMap_distinct[OF dk, of c0] by auto
    with nn have "replies n = replyKeys cs k" by simp
    then show "count_list (replies n) (keyOf c)
                = (if \<not> nullish (parentId c) \<and> propKey (parentId c) = k then 1 else 0)"
      unfolding replyKeys_def using count_list_map_filter[OF dk c] by simp
  qed
  with b show ?thesis by blast
qed

section \<open>Create\<close>

lemma storedParentId_falsy: "\<not> truthy p \<Longrightarrow> storedParentId p = JNull"
  by (simp add: storedParentId_def Let_def)

lemma storedParentId_truthy: "truthy p \<Longrightarrow> storedParentId p = p"
  by (cases p) (simp_all add: storedParentId_def Let_def)

lemma response_saveEmitRespond:
  "response (saveEmitRespond d r) = Inr r' \<Longrightarrow>
     r' = r \<and> (\<exists>t. buildCommentsTree (comments d) = Inr t \<and> saveEmitRespond d r = \<lparr>saved = [d], emitted = [t], response = Inr r\<rparr>)"
  by (auto simp: saveEmitRespond_def split: sum.splits)

lemma root_in_roots:
  assumes "buildCommentsTree cs = Inr (roots, m)" and "c \<in> set cs" and "nullish (parentId c)"
  shows "keyOf c \<in> set roots"
proof -
  from buildCommentsTree_Inr[OF assms(1)]
  have "set roots = set (rootKeys cs)" by simp
  with assms(2,3) show ?thesis by (simp add: rootKeys_def)
qed

lemma last_node:
  assumes "buildCommentsTree (cs @ [c]) = Inr (roots, m)"
  shows "map_option ncomment (m (keyOf c)) = Some c"
proof -
  from buildCommentsTree_Inr[OF assms]
  have "m = grow (cs @ [c]) (fillMap (cs @ [c]))" by simp
  then show ?thesis by (simp add: grow_def fillMap_snoc)
qed

text \<open>
  C10. Whenever the supplied \<^verbatim>\<open>parentId\<close> is falsy (absent, null, 0, the empty string or
  false), Create behaves exactly as for a request without \<^verbatim>\<open>parentId\<close>; the comment it
  stores has a null \<^verbatim>\<open>parentId\<close>, and in the tree that the request publishes its node is
  among the roots.
\<close>

theorem create_falsy_parentId:
  assumes "\<not> truthy p"
  shows "createComment u body p now d = createComment u body JUndef now d
     \<and> (\<forall>c. response (createComment u body p now d) = Inr (Created c) \<longrightarrow>
          parentId c = JNull
          \<and> (\<exists>roots m.
               saved (createComment u body p now d)
                 = [d\<lparr>comments := comments d @ [c], nextCommentId := nextCommentId d + 1\<rparr>]
               \<and> emitted (createComment u body p now d) = [(roots, m)]
               \<and> keyOf c \<in> set roots
               \<and> map_option ncomment (m (keyOf c)) = Some c))"
proof (intro conjI allI impI)
  have eq: "storedParentId p = storedParentId JUndef"
    using assms by (simp add: storedParentId_falsy)
  show "createComment u body p now d = createComment u body JUndef now d"
    unfolding createComment_def eq by (rule refl)
next
  fix c assume ok: "response (createComment u body p now d) = Inr (Created c)"
  then obtain s usr where s: "checkContent body = Inr s"
    and usr: "find (\<lambda>x. uid x = u) (users d) = Some usr"
    by (auto simp: createComment_def failWith_def split: sum.splits option.splits)
  let ?c = "\<lparr>cid = nextCommentId d, userId = uid usr, userName = uname usr,
              avatar = uavatar usr, content = s, createdAt = now, updatedAt = None,
              parentId = JNull, reactions = emptyReactions\<rparr>"
  let ?d = "d\<lparr>comments := comments d @ [?c], nextCommentId := nextCommentId d + 1\<rparr>"
  have cc: "createComment u body p now d = saveEmitRespond ?d (Created ?c)"
    using assms s usr by (simp add: createComment_def storedParentId_falsy Let_def)
  with ok response_saveEmitRespond[of ?d "Created ?c" "Created c"]
  obtain t where c: "c = ?c" and b: "buildCommentsTree (comments ?d) = Inr t"
    and out: "saveEmitRespond ?d (Created ?c) = \<lparr>saved = [?d], emitted = [t], response = Inr (Created ?c)\<rparr>"
    by auto
  show "parentId c = JNull" by (simp add: c)
  obtain roots m where t: "t = (roots, m)" by (cases t)
  from b t have b': "buildCommentsTree (comments d @ [c]) = Inr (roots, m)" by (simp add: c)
  have "keyOf c \<in> set roots"
    using b' by (rule root_in_roots) (simp_all add: c)
  moreover have "map_option ncomment (m (keyOf c)) = Some c"
    using b' by (rule last_node)
  ultimately show "\<exists>roots m.
               saved (createComment u body p now d)
                 = [d\<lparr>comments := comments d @ [c], nextCommentId := nextCommentId d + 1\<rparr>]
               \<and> emitted (createComment u body p now d) = [(roots, m)]
               \<and> keyOf c \<in> set roots
               \<and> map_option ncomment (m (keyOf c)) = Some c"
    using cc out t c by auto
qed

lemma build_single: "\<exists>m. buildCommentsTree [mk 1 1 1000 JNull] = Inr ([''1''], m)"
  by (simp add: buildCommentsTree_def attach_def fillMap_def mk_def key_eval)

lemma create_eval:
  "response (createComment 1 (JStr ''hi'') (JNum 0) 1000 freshDb) = Inr (Created (mk 1 1 1000 JNull))"
proof -
  have "createComment 1 (JStr ''hi'') (JNum 0) 1000 freshDb
        = saveEmitRespond oneDb (Created (mk 1 1 1000 JNull))"
    by (simp add: createComment_def checkContent_def trim_hi freshDb_def user1_def
        mk_def storedParentId_def oneDb_def Let_def)
  then show ?thesis using build_single
    by (auto simp: saveEmitRespond_def oneDb_def)
qed

text \<open>On a fresh board, user 1 posts with \<^verbatim>\<open>parentId: 0\<close>.\<close>

theorem create_falsy_parentId_witness:
  "\<not> truthy (JNum 0)
   \<and> createComment 1 (JStr ''hi'') (JNum 0) 1000 freshDb
       = createComment 1 (JStr ''hi'') JUndef 1000 freshDb
   \<and> response (createComment 1 (JStr ''hi'') (JNum 0) 1000 freshDb)
       = Inr (Created (mk 1 1 1000 JNull))
   \<and> parentId (mk 1 1 1000 JNull) = JNull
   \<and> (\<exists>roots m. emitted (createComment 1 (JStr ''hi'') (JNum 0) 1000 freshDb) = [(roots, m)]
         \<and> keyOf (mk 1 1 1000 JNull) \<in> set roots)"
proof -
  have h: "\<not> truthy (JNum 0)" by simp
  from create_falsy_parentId[OF h, of 1 "JStr ''hi''" 1000 freshDb] create_eval h
  show ?thesis by blast
qed

section \<open>Ownership, and the frame of Edit\<close>

lemma checkContent_Inr:
  "checkContent body = Inr s \<longleftrightarrow> (\<exists>raw. body = JStr raw \<and> trim raw \<noteq> [] \<and> s = trim raw)"
  by (cases body) (auto simp: checkContent_def trim_def)

lemma trim_blank: "trim '' '' = []"
  by (simp add: trim_def isSpace_def)

lemma trim_new: "trim '' new  '' = ''new''"
  by (simp add: trim_def isSpace_def)

text \<open>
  C6, as stated: Edit or Delete of a comment by a user who is not its author fails with
  ForbiddenError. Edit validates the content before it looks the comment up, so an Edit
  with a blank content by a stranger is answered with the validation error instead.
\<close>

theorem edit_blank_by_stranger:
  "find (hasId (Some 1)) (comments oneDb) = Some (mk 1 1 1000 JNull)
   \<and> userId (mk 1 1 1000 JNull) \<noteq> 2
   \<and> response (editComment 2 (Some 1) (JStr '' '') 2000 oneDb) = Inl ValidationError
   \<and> response (editComment 2 (Some 1) (JStr '' '') 2000 oneDb) \<noteq> Inl ForbiddenError"
  by (simp add: oneDb_def mk_def hasId_def editComment_def checkContent_def trim_blank
      failWith_def)

text \<open>
  C6, amended: for every comment C that the requested id resolves to and every user whose
  id differs from \<open>C.userId\<close>, Delete fails with ForbiddenError, Edit with a content that
  passes validation fails with ForbiddenError, and Edit with a content that fails validation
  fails with that validation error; in every case nothing is written and nothing is
  published.
\<close>

theorem not_owner_rejected:
  assumes "find (hasId (Some i)) (comments d) = Some C"
    and "userId C \<noteq> reqUser"
  shows "deleteComment stack reqUser (Some i) d
           = \<lparr>saved = [], emitted = [], response = Inl ForbiddenError\<rparr>
       \<and> (\<forall>s. checkContent body = Inr s \<longrightarrow>
             editComment reqUser (Some i) body now d
               = \<lparr>saved = [], emitted = [], response = Inl ForbiddenError\<rparr>)
       \<and> (\<forall>e. checkContent body = Inl e \<longrightarrow>
             editComment reqUser (Some i) body now d
               = \<lparr>saved = [], emitted = [], response = Inl e\<rparr>)"
  using assms by (simp add: deleteComment_def editComment_def failWith_def)

text \<open>User 2 on the comment of user 1 in \<open>oneDb\<close>.\<close>

theorem not_owner_rejected_witness:
  "find (hasId (Some 1)) (comments oneDb) = Some (mk 1 1 1000 JNull)
   \<and> userId (mk 1 1 1000 JNull) \<noteq> 2
   \<and> checkContent (JStr '' new  '') = Inr ''new''
   \<and> checkContent (JStr '' '') = Inl ValidationError
   \<and> deleteComment 10 2 (Some 1) oneDb
       = \<lparr>saved = [], emitted = [], response = Inl ForbiddenError\<rparr>
   \<and> editComment 2 (Some 1) (JStr '' new  '') 2000 oneDb
       = \<lparr>saved = [], emitted = [], response = Inl ForbiddenError\<rparr>
   \<and> editComment 2 (Some 1) (JStr '' '') 2000 oneDb
       = \<lparr>saved = [], emitted = [], response = Inl ValidationError\<rparr>"
proof -
  have h1: "find (hasId (Some 1)) (comments oneDb) = Some (mk 1 1 1000 JNull)"
    by (simp add: oneDb_def mk_def hasId_def)
  have h2: "userId (mk 1 1 1000 JNull) \<noteq> 2" by (simp add: mk_def)
  have c1: "checkContent (JStr '' new  '') = Inr ''new''"
    by (simp add: checkContent_def trim_new)
  have c2: "checkContent (JStr '' '') = Inl ValidationError"
    by (simp add: checkContent_def trim_blank)
  show ?thesis
    using not_owner_rejected[OF h1 h2, of 10 "JStr '' new  ''" 2000]
      not_owner_rejected[OF h1 h2, of 10 "JStr '' ''" 2000] h1 h2 c1 c2
    by simp
qed

lemma updateFirst_split:
  "find P xs = Some x \<Longrightarrow>
   \<exists>pre post. xs = pre @ x # post \<and> (\<forall>y\<in>set pre. \<not> P y) \<and> updateFirst P f xs = pre @ f x # post"
proof (induction xs)
  case Nil
  then show ?case by simp
next
  case (Cons y ys)
  show ?case
  proof (cases "P y")
    case True
    with Cons.prems have "y = x" by simp
    with True have "y # ys = [] @ x # ys \<and> (\<forall>z\<in>set []. \<not> P z) \<and> updateFirst P f (y # ys) = [] @ f x # ys"
      by simp
    then show ?thesis by blast
  next
    case False
    with Cons obtain pre post where "ys = pre @ x # post" "\<forall>z\<in>set pre. \<not> P z"
      "updateFirst P f ys = pre @ f x # post" by auto
    with False have "y # ys = (y # pre) @ x # post \<and> (\<forall>z\<in>set (y # pre). \<not> P z)
        \<and> updateFirst P f (y # ys) = (y # pre) @ f x # post" by simp
    then show ?thesis by blast
  qed
qed

text \<open>
  C7. A successful Edit by the author writes the document in which the comment that the id
  resolves to (the first with that id) has the trimmed new content and \<open>updatedAt\<close> set
  to the current time, all its other fields as before, and every other comment, before
  and after it in the list, as before; users and counters are untouched.
\<close>

theorem edit_frame:
  assumes "body = JStr raw" and "trim raw \<noteq> []"
    and "find (hasId (Some i)) (comments d) = Some C"
    and "userId C = reqUser"
  shows "\<exists>pre post C'.
           comments d = pre @ C # post \<and> (\<forall>x\<in>set pre. cid x \<noteq> i)
         \<and> saved (editComment reqUser (Some i) body now d) = [d\<lparr>comments := pre @ C' # post\<rparr>]
         \<and> content C' = trim raw \<and> updatedAt C' = Some now
         \<and> cid C' = cid C \<and> userId C' = userId C \<and> userName C' = userName C
         \<and> avatar C' = avatar C \<and> createdAt C' = createdAt C \<and> parentId C' = parentId C
         \<and> reactions C' = reactions C"
proof -
  let ?C = "C\<lparr>content := trim raw, updatedAt := Some now\<rparr>"
  from updateFirst_split[OF assms(3), of "\<lambda>_. ?C"] obtain pre post
    where sp: "comments d = pre @ C # post" and pre: "\<forall>y\<in>set pre. \<not> hasId (Some i) y"
      and up: "updateFirst (hasId (Some i)) (\<lambda>_. ?C) (comments d) = pre @ ?C # post"
    by blast
  have cc: "checkContent body = Inr (trim raw)"
    using assms(1,2) by (simp add: checkContent_Inr)
  have "saved (editComment reqUser (Some i) body now d) = [d\<lparr>comments := pre @ ?C # post\<rparr>]"
    using cc assms(3,4) up by (simp add: editComment_def saved_saveEmitRespond Let_def)
  moreover have "\<forall>x\<in>set pre. cid x \<noteq> i" using pre by (auto simp: hasId_def)
  ultimately show ?thesis using sp
    by (intro exI[of _ pre] exI[of _ post] exI[of _ ?C]) simp
qed

text \<open>User 2 edits the reply in \<open>twoDb\<close>.\<close>

theorem edit_frame_witness:
  "JStr '' new  '' = JStr '' new  '' \<and> trim '' new  '' \<noteq> []
   \<and> find (hasId (Some 2)) (comments twoDb) = Some (mk 2 2 2000 (JNum 1))
   \<and> userId (mk 2 2 2000 (JNum 1)) = 2
   \<and> saved (editComment 2 (Some 2) (JStr '' new  '') 7000 twoDb)
       = [twoDb\<lparr>comments := [mk 1 1 1000 JNull,
            (mk 2 2 2000 (JNum 1))\<lparr>content := ''new'', updatedAt := Some 7000\<rparr>]\<rparr>]"
proof -
  have h2: "trim '' new  '' \<noteq> []" by (simp add: trim_new)
  have h3: "find (hasId (Some 2)) (comments twoDb) = Some (mk 2 2 2000 (JNum 1))"
    by (simp add: twoDb_def mk_def hasId_def)
  have h4: "userId (mk 2 2 2000 (JNum 1)) = 2" by (simp add: mk_def)
  from edit_frame[OF refl h2 h3 h4, of 7000] obtain pre post C'
    where sp: "comments twoDb = pre @ mk 2 2 2000 (JNum 1) # post"
      and pre: "\<forall>x\<in>set pre. cid x \<noteq> 2"
      and sv: "saved (editComment 2 (Some 2) (JStr '' new  '') 7000 twoDb)
                 = [twoDb\<lparr>comments := pre @ C' # post\<rparr>]"
    by blast
  have ev: "saved (editComment 2 (Some 2) (JStr '' new  '') 7000 twoDb)
       = [twoDb\<lparr>comments := [mk 1 1 1000 JNull,
            (mk 2 2 2000 (JNum 1))\<lparr>content := ''new'', updatedAt := Some 7000\<rparr>]\<rparr>]"
    by (simp add: editComment_def checkContent_def trim_new twoDb_def hasId_def mk_def
        saved_saveEmitRespond Let_def)
  from h2 h3 h4 sv ev show ?thesis by simp
qed

section \<open>Reactions\<close>

lemma toggle_absent: "u \<notin> set xs \<Longrightarrow> toggle u xs = xs @ [u]"
  by (simp add: toggle_def)

lemma toggle_present:
  "u \<in> set xs \<Longrightarrow> distinct xs \<Longrightarrow> u \<notin> set (toggle u xs) \<and> set (toggle u xs) = set xs - {u}"
  by (simp add: toggle_def)

lemma distinct_toggle: "distinct xs \<Longrightarrow> distinct (toggle u xs)"
  by (simp add: toggle_def)

lemma toggle_twice_absent: "u \<notin> set xs \<Longrightarrow> toggle u (toggle u xs) = xs"
  by (simp add: toggle_def remove1_append)

lemma toggle_twice_set: "distinct xs \<Longrightarrow> set (toggle u (toggle u xs)) = set xs"
  by (auto simp: toggle_def remove1_append)

lemma find_updateFirst:
  "find P xs = Some x \<Longrightarrow> P (f x) \<Longrightarrow> find P (updateFirst P f xs) = Some (f x)"
  by (induction xs) (auto split: if_splits)

lemma hasId_reactTo: "hasId i (reactTo k u c) = hasId i c"
  by (simp add: hasId_def reactTo_def)

lemma find_hasId_P: "find (hasId i) cs = Some C \<Longrightarrow> hasId i C"
  by (auto simp: find_Some_iff)

lemma reactionsOf_afterReact:
  assumes "kindOf r = Some k" and "reactionsOf i d = Some R"
  shows "reactionsOf i (afterReact u i r d) = Some (R(k := toggle u (R k)))"
proof -
  from assms(2) obtain C where C: "find (hasId i) (comments d) = Some C" and R: "R = reactions C"
    by (auto simp: reactionsOf_def)
  have "afterReact u i r d
        = d\<lparr>comments := updateFirst (hasId i) (reactTo k u) (comments d)\<rparr>"
    using assms(1) C by (simp add: afterReact_def persisted_def reactComment_def
        saved_saveEmitRespond)
  moreover have "find (hasId i) (updateFirst (hasId i) (reactTo k u) (comments d))
                 = Some (reactTo k u C)"
    using C by (rule find_updateFirst) (simp add: hasId_reactTo find_hasId_P[OF C])
  ultimately show ?thesis by (simp add: reactionsOf_def reactTo_def R)
qed

lemma react_keeps_distinct:
  assumes "kindOf r = Some k" and "reactionsOf i d = Some R" and "\<forall>k'. distinct (R k')"
  shows "\<exists>R1. reactionsOf i (afterReact u i r d) = Some R1 \<and> (\<forall>k'. distinct (R1 k'))"
  using reactionsOf_afterReact[OF assms(1,2), of u] assms(3) by (simp add: distinct_toggle)

text \<open>
  C4. React toggles: for a valid kind \<open>k\<close> and the comment the id resolves to, whose array
  for \<open>k\<close> has no duplicate, the user's id is removed from the array of \<open>k\<close> when it is
  there and appended when it is not, and the arrays of the other kinds are untouched.
  Hence reacting twice with the same kind restores every reaction set (the array itself
  when the user was absent), and reacting with one kind and then with another, from a
  state where the user is in neither, leaves the user in both.
\<close>

theorem react_toggles:
  assumes "kindOf r = Some k" and "reactionsOf i d = Some R" and "distinct (R k)"
  shows "\<exists>R1 R2.
           reactionsOf i (afterReact u i r d) = Some R1
         \<and> reactionsOf i (afterReact u i r (afterReact u i r d)) = Some R2
         \<and> (u \<in> set (R k) \<longrightarrow> u \<notin> set (R1 k) \<and> set (R1 k) = set (R k) - {u})
         \<and> (u \<notin> set (R k) \<longrightarrow> R1 k = R k @ [u])
         \<and> (\<forall>k'. k' \<noteq> k \<longrightarrow> R1 k' = R k')
         \<and> (\<forall>k'. set (R2 k') = set (R k'))
         \<and> (u \<notin> set (R k) \<longrightarrow> R2 = R)
         \<and> (\<forall>r' k'. kindOf r' = Some k' \<and> k' \<noteq> k \<and> u \<notin> set (R k) \<and> u \<notin> set (R k') \<longrightarrow>
               (\<exists>R3. reactionsOf i (afterReact u i r' (afterReact u i r d)) = Some R3
                     \<and> u \<in> set (R3 k) \<and> u \<in> set (R3 k')))"
proof -
  let ?R1 = "R(k := toggle u (R k))"
  let ?R2 = "?R1(k := toggle u (?R1 k))"
  have r1: "reactionsOf i (afterReact u i r d) = Some ?R1"
    using assms(1,2) by (rule reactionsOf_afterReact)
  have r2: "reactionsOf i (afterReact u i r (afterReact u i r d)) = Some ?R2"
    using assms(1) r1 by (rule reactionsOf_afterReact)
  have a: "u \<in> set (R k) \<longrightarrow> u \<notin> set (?R1 k) \<and> set (?R1 k) = set (R k) - {u}"
    using assms(3) by (simp add: toggle_present)
  have b: "u \<notin> set (R k) \<longrightarrow> ?R1 k = R k @ [u]"
    by (simp add: toggle_absent)
  have c: "\<forall>k'. k' \<noteq> k \<longrightarrow> ?R1 k' = R k'" by simp
  have d: "\<forall>k'. set (?R2 k') = set (R k')"
    using assms(3) by (simp add: toggle_twice_set)
  have e: "u \<notin> set (R k) \<longrightarrow> ?R2 = R"
    by (auto simp: toggle_twice_absent)
  have f: "\<forall>r' k'. kindOf r' = Some k' \<and> k' \<noteq> k \<and> u \<notin> set (R k) \<and> u \<notin> set (R k') \<longrightarrow>
               (\<exists>R3. reactionsOf i (afterReact u i r' (afterReact u i r d)) = Some R3
                     \<and> u \<in> set (R3 k) \<and> u \<in> set (R3 k'))"
  proof (intro allI impI)
    fix r' k'
    assume h: "kindOf r' = Some k' \<and> k' \<noteq> k \<and> u \<notin> set (R k) \<and> u \<notin> set (R k')"
    then have "reactionsOf i (afterReact u i r' (afterReact u i r d))
               = Some (?R1(k' := toggle u (?R1 k')))"
      using reactionsOf_afterReact[of r' k' i "afterReact u i r d" ?R1 u] r1 by simp
    moreover have "u \<in> set ((?R1(k' := toggle u (?R1 k'))) k)"
      using h by (simp add: toggle_absent)
    moreover have "u \<in> set ((?R1(k' := toggle u (?R1 k'))) k')"
      using h by (simp add: toggle_absent)
    ultimately show "\<exists>R3. reactionsOf i (afterReact u i r' (afterReact u i r d)) = Some R3
                     \<and> u \<in> set (R3 k) \<and> u \<in> set (R3 k')"
      by blast
  qed
  from r1 r2 a b c d e f show ?thesis by blast
qed

text \<open>User 2 reacts to comment 1 of \<open>oneDb\<close>: like, like again, and like then love.\<close>

theorem react_toggles_witness:
  "kindOf (JStr ''like'') = Some Like
   \<and> reactionsOf (Some 1) oneDb = Some emptyReactions
   \<and> distinct (emptyReactions Like)
   \<and> kindOf (JStr ''love'') = Some Love \<and> Love \<noteq> Like
   \<and> 2 \<notin> set (emptyReactions Like) \<and> 2 \<notin> set (emptyReactions Love)
   \<and> (\<exists>R1. reactionsOf (Some 1) (afterReact 2 (Some 1) (JStr ''like'') oneDb) = Some R1
             \<and> R1 Like = [2])
   \<and> reactionsOf (Some 1)
        (afterReact 2 (Some 1) (JStr ''like'') (afterReact 2 (Some 1) (JStr ''like'') oneDb))
       = Some emptyReactions
   \<and> (\<exists>R3. reactionsOf (Some 1)
               (afterReact 2 (Some 1) (JStr ''love'') (afterReact 2 (Some 1) (JStr ''like'') oneDb))
             = Some R3 \<and> 2 \<in> set (R3 Like) \<and> 2 \<in> set (R3 Love))"
proof -
  have h1: "kindOf (JStr ''like'') = Some Like" by simp
  have h2: "reactionsOf (Some 1) oneDb = Some emptyReactions"
    by (simp add: reactionsOf_def oneDb_def hasId_def mk_def)
  have h3: "distinct (emptyReactions Like)" by (simp add: emptyReactions_def)
  have h4: "kindOf (JStr ''love'') = Some Love \<and> Love \<noteq> Like
      \<and> 2 \<notin> set (emptyReactions Like) \<and> 2 \<notin> set (emptyReactions Love)"
    by (simp add: emptyReactions_def)
  from react_toggles[OF h1 h2 h3, of 2] obtain R1 R2 where
    r1: "reactionsOf (Some 1) (afterReact 2 (Some 1) (JStr ''like'') oneDb) = Some R1"
    and r2: "reactionsOf (Some 1)
        (afterReact 2 (Some 1) (JStr ''like'') (afterReact 2 (Some 1) (JStr ''like'') oneDb))
       = Some R2"
    and b: "2 \<notin> set (emptyReactions Like) \<longrightarrow> R1 Like = emptyReactions Like @ [2]"
    and e: "2 \<notin> set (emptyReactions Like) \<longrightarrow> R2 = emptyReactions"
    and f: "\<forall>r' k'. kindOf r' = Some k' \<and> k' \<noteq> Like \<and> 2 \<notin> set (emptyReactions Like)
                \<and> 2 \<notin> set (emptyReactions k') \<longrightarrow>
               (\<exists>R3. reactionsOf (Some 1)
                   (afterReact 2 (Some 1) r' (afterReact 2 (Some 1) (JStr ''like'') oneDb)) = Some R3
                     \<and> 2 \<in> set (R3 Like) \<and> 2 \<in> set (R3 k'))"
    by blast
  from b h4 have "R1 Like = [2]" by (simp add: emptyReactions_def)
  moreover from e h4 have "R2 = emptyReactions" by simp
  moreover from f h4 have "\<exists>R3. reactionsOf (Some 1)
               (afterReact 2 (Some 1) (JStr ''love'') (afterReact 2 (Some 1) (JStr ''like'') oneDb))
             = Some R3 \<and> 2 \<in> set (R3 Like) \<and> 2 \<in> set (R3 Love)"
    by blast
  ultimately show ?thesis using h1 h2 h3 h4 r1 r2 by blast
qed

section \<open>Ids and events over a sequence of requests\<close>

lemma create_shape:
  "(\<exists>e. createComment u b p n d = failWith e) \<or>
   (\<exists>d' r. createComment u b p n d = saveEmitRespond d' r \<and> sameCounters d d' r)"
proof (cases "checkContent b")
  case (Inl e)
  then show ?thesis by (auto simp: createComment_def)
next
  case (Inr s)
  show ?thesis
  proof (cases "find (\<lambda>x. uid x = u) (users d)")
    case None
    with Inr show ?thesis by (auto simp: createComment_def)
  next
    case (Some usr)
    let ?c = "\<lparr>cid = nextCommentId d, userId = uid usr, userName = uname usr,
              avatar = uavatar usr, content = s, createdAt = n, updatedAt = None,
              parentId = storedParentId p, reactions = emptyReactions\<rparr>"
    let ?d = "d\<lparr>comments := comments d @ [?c], nextCommentId := nextCommentId d + 1\<rparr>"
    have "createComment u b p n d = saveEmitRespond ?d (Created ?c)"
      using Inr Some by (simp add: createComment_def Let_def)
    moreover have "sameCounters d ?d (Created ?c)" by (simp add: sameCounters_def)
    ultimately show ?thesis by blast
  qed
qed

lemma edit_shape:
  "(\<exists>e. editComment u i b n d = failWith e) \<or>
   (\<exists>d' r. editComment u i b n d = saveEmitRespond d' r \<and> sameCounters d d' r)"
proof (cases "checkContent b")
  case (Inl e)
  then show ?thesis by (auto simp: editComment_def)
next
  case (Inr s)
  show ?thesis
  proof (cases "find (hasId i) (comments d)")
    case None
    with Inr show ?thesis by (auto simp: editComment_def)
  next
    case (Some c)
    show ?thesis
    proof (cases "userId c = u")
      case False
      with Inr Some show ?thesis by (auto simp: editComment_def)
    next
      case True
      let ?c = "c\<lparr>content := s, updatedAt := Some n\<rparr>"
      let ?d = "d\<lparr>comments := updateFirst (hasId i) (\<lambda>_. ?c) (comments d)\<rparr>"
      have "editComment u i b n d = saveEmitRespond ?d (Edited ?c)"
        using Inr Some True by (simp add: editComment_def Let_def)
      moreover have "sameCounters d ?d (Edited ?c)" by (simp add: sameCounters_def)
      ultimately show ?thesis by blast
    qed
  qed
qed

lemma delete_shape:
  "(\<exists>e. deleteComment s u i d = failWith e) \<or>
   (\<exists>d' r. deleteComment s u i d = saveEmitRespond d' r \<and> sameCounters d d' r)"
proof (cases "find (hasId i) (comments d)")
  case None
  then show ?thesis by (auto simp: deleteComment_def)
next
  case (Some c)
  show ?thesis
  proof (cases "userId c = u")
    case False
    with Some show ?thesis by (auto simp: deleteComment_def)
  next
    case True
    show ?thesis
    proof (cases "markDescendants s (comments d) (cid c) {}")
      case None
      with \<open>find (hasId i) (comments d) = Some c\<close> True None show ?thesis
        by (auto simp: deleteComment_def)
    next
      case (Some toRemove)
      let ?d = "d\<lparr>comments := filter (\<lambda>c. cid c \<notin> toRemove) (comments d)\<rparr>"
      have "deleteComment s u i d = saveEmitRespond ?d Deleted"
        using \<open>find (hasId i) (comments d) = Some c\<close> True Some
        by (simp add: deleteComment_def)
      moreover have "sameCounters d ?d Deleted" by (simp add: sameCounters_def)
      ultimately show ?thesis by blast
    qed
  qed
qed

lemma react_shape:
  "(\<exists>e. reactComment u i r d = failWith e) \<or>
   (\<exists>d' r'. reactComment u i r d = saveEmitRespond d' r' \<and> sameCounters d d' r')"
proof (cases "kindOf r")
  case None
  then show ?thesis by (auto simp: reactComment_def)
next
  case (Some k)
  show ?thesis
  proof (cases "find (hasId i) (comments d)")
    case None
    with \<open>kindOf r = Some k\<close> show ?thesis by (auto simp: reactComment_def)
  next
    case (Some c)
    let ?d = "d\<lparr>comments := updateFirst (hasId i) (reactTo k u) (comments d)\<rparr>"
    have "reactComment u i r d = saveEmitRespond ?d (Reacted (reactions (reactTo k u c)))"
      using \<open>kindOf r = Some k\<close> Some by (simp add: reactComment_def)
    moreover have "sameCounters d ?d (Reacted (reactions (reactTo k u c)))"
      by (simp add: sameCounters_def)
    ultimately show ?thesis by blast
  qed
qed

lemma handle_shape:
  "(\<exists>e. handle req d = failWith e) \<or>
   (\<exists>d' r. handle req d = saveEmitRespond d' r \<and> sameCounters d d' r)"
  by (cases req) (simp_all add: create_shape edit_shape delete_shape react_shape)








text \<open>
  C9. Whenever a Create, Edit, Delete or React request is answered with success, the
  handler has written exactly one document and passed exactly one payload to \<^verbatim>\<open>io.emit\<close>, the
  tree that \<open>buildCommentsTree\<close> returns on the comment list of the document just written,
  and every connected socket is sent that payload.
\<close>

theorem mutation_publishes_once:
  assumes "response (handle req d) = Inr r"
  shows "\<exists>d' t. saved (handle req d) = [d'] \<and> buildCommentsTree (comments d') = Inr t
           \<and> emitted (handle req d) = [t]
           \<and> deliveries sockets (handle req d) = map (\<lambda>s. (s, t)) sockets"
proof -
  from handle_shape[of req d] assms obtain d' r' where h: "handle req d = saveEmitRespond d' r'"
    by (auto simp: failWith_def)
  with assms response_saveEmitRespond[of d' r' r] obtain t
    where "buildCommentsTree (comments d') = Inr t"
      and "handle req d = \<lparr>saved = [d'], emitted = [t], response = Inr r'\<rparr>"
    by auto
  then show ?thesis
    by (intro exI[of _ d'] exI[of _ t]) (simp add: deliveries_def io_emit_def)
qed



lemma build_one: "\<exists>t. buildCommentsTree [mk i u n JNull] = Inr t"
  by (rule buildCommentsTree_safe) (simp add: safeParent_def mk_def)


lemma saveEmitRespond_ok:
  "\<exists>t. buildCommentsTree (comments d) = Inr t \<Longrightarrow>
   response (saveEmitRespond d r) = Inr r \<and> persisted d0 (saveEmitRespond d r) = d"
  by (auto simp: saveEmitRespond_def persisted_def)

lemma step1:
  "createComment 1 (JStr ''hi'') JUndef 1000 freshDb
   = saveEmitRespond oneDb (Created (mk 1 1 1000 JNull))"
  by (simp add: createComment_def checkContent_def trim_hi freshDb_def user1_def
        mk_def storedParentId_def oneDb_def Let_def)







text \<open>The first Create on a fresh board, with two sockets connected.\<close>

theorem mutation_publishes_once_witness:
  "response (handle (Create 1 (JStr ''hi'') JUndef 1000) freshDb) = Inr (Created (mk 1 1 1000 JNull))
   \<and> (\<exists>t. saved (handle (Create 1 (JStr ''hi'') JUndef 1000) freshDb) = [oneDb]
        \<and> buildCommentsTree (comments oneDb) = Inr t
        \<and> emitted (handle (Create 1 (JStr ''hi'') JUndef 1000) freshDb) = [t]
        \<and> deliveries [''socket-a'', ''socket-b''] (handle (Create 1 (JStr ''hi'') JUndef 1000) freshDb)
            = [(''socket-a'', t), (''socket-b'', t)])"
proof -
  have o1: "\<exists>t. buildCommentsTree (comments oneDb) = Inr t"
    using build_one by (simp add: oneDb_def)
  have h: "response (handle (Create 1 (JStr ''hi'') JUndef 1000) freshDb)
           = Inr (Created (mk 1 1 1000 JNull))"
    by (simp add: step1 saveEmitRespond_ok[OF o1])
  have sv: "saved (handle (Create 1 (JStr ''hi'') JUndef 1000) freshDb) = [oneDb]"
    by (simp add: step1 saved_saveEmitRespond)
  from mutation_publishes_once[OF h, of "[''socket-a'', ''socket-b'']"] sv h show ?thesis
    by auto
qed

end
